theory Spec2Isabelle
  imports Complex_Main "HOL-Library.Multiset" "HOL-Library.Product_Lexorder"
begin

section \<open>Python values: errors and list primitives\<close>

text \<open>
  The exceptions the modelled code can raise are values of \<open>py_error\<close>; a fallible
  operation returns \<open>py_error + 'a\<close> with \<open>Inl\<close> for the raised exception.
  List indexing follows Python: a negative index counts from the end, an index out of
  range raises \<open>IndexError\<close>; \<open>list.insert\<close> clamps its index.
\<close>

datatype py_error = IndexError | ZeroDivisionError | ValueError

text \<open>
  An individual is an opaque payload with one fitness. The fitness class itself is not
  part of \<^verbatim>\<open>tools.py\<close>: the archives only need its total order (a \<open>linorder\<close>), and
  the Pareto code receives the dominance test \<open>isDominated\<close> as a parameter,
  \<open>isDominated a b\<close> standing for \<^verbatim>\<open>a.isDominated(b)\<close> (a is dominated by b).
\<close>

record ('g, 'f) individual =
  genome :: 'g
  fitness :: 'f

definition py_index :: "'a list \<Rightarrow> int \<Rightarrow> py_error + nat" where
  "py_index xs i =
     (let n = int (length xs); j = (if i < 0 then i + n else i)
      in if 0 \<le> j \<and> j < n then Inr (nat j) else Inl IndexError)"

definition py_getitem :: "'a list \<Rightarrow> int \<Rightarrow> py_error + 'a" where
  "py_getitem xs i = (case py_index xs i of Inl e \<Rightarrow> Inl e | Inr k \<Rightarrow> Inr (xs ! k))"

definition py_delitem :: "'a list \<Rightarrow> int \<Rightarrow> py_error + 'a list" where
  "py_delitem xs i =
     (case py_index xs i of Inl e \<Rightarrow> Inl e | Inr k \<Rightarrow> Inr (take k xs @ drop (Suc k) xs))"

definition py_insert :: "'a list \<Rightarrow> int \<Rightarrow> 'a \<Rightarrow> 'a list" where
  "py_insert xs i x =
     (let n = int (length xs); j = (if i < 0 then max 0 (i + n) else min i n)
      in take (nat j) xs @ x # drop (nat j) xs)"

text \<open>\<^verbatim>\<open>bisect.bisect_right\<close> of the standard library: binary search with \<open><\<close>.\<close>

function bisect_right_loop :: "'f::linorder list \<Rightarrow> 'f \<Rightarrow> nat \<Rightarrow> nat \<Rightarrow> nat" where
  "bisect_right_loop a x lo hi =
     (if lo < hi
      then (let mid = (lo + hi) div 2
            in if x < a ! mid then bisect_right_loop a x lo mid
               else bisect_right_loop a x (mid + 1) hi)
      else lo)"
  by pat_completeness auto
termination
  by (relation "measure (\<lambda>(a, x, lo, hi). hi - lo)") auto

declare bisect_right_loop.simps [simp del]

definition bisect_right :: "'f::linorder list \<Rightarrow> 'f \<Rightarrow> nat" where
  "bisect_right a x = bisect_right_loop a x 0 (length a)"

section \<open>HallOfFame and ParetoFront\<close>

text \<open>
  \<^verbatim>\<open>HallOfFame\<close> holds \<open>maxsize\<close>, the fitnesses \<open>keys\<close> in ascending order and the
  \<open>items\<close>, best first. \<^verbatim>\<open>ParetoFront\<close> is the same object built with
  \<^verbatim>\<open>maxsize = None\<close>. Stored items are deep copies; values of HOL are immutable, so
  the copy is the value itself.
\<close>

record ('g, 'f) HallOfFame =
  maxsize :: "int option"
  keys :: "'f list"
  items :: "('g, 'f) individual list"

definition HallOfFame_init :: "int \<Rightarrow> ('g, 'f) HallOfFame" where
  "HallOfFame_init m = \<lparr>maxsize = Some m, keys = [], items = []\<rparr>"

definition HallOfFame_insert ::
  "('g, 'f::linorder) HallOfFame \<Rightarrow> ('g, 'f) individual \<Rightarrow> ('g, 'f) HallOfFame" where
  "HallOfFame_insert h item =
     (let i = bisect_right (keys h) (fitness item)
      in h\<lparr>items := py_insert (items h) (int (length (items h)) - int i) item,
            keys := py_insert (keys h) (int i) (fitness item)\<rparr>)"

definition HallOfFame_remove ::
  "('g, 'f) HallOfFame \<Rightarrow> int \<Rightarrow> py_error + ('g, 'f) HallOfFame" where
  "HallOfFame_remove h index =
     (let n = int (length (items h))
      in if n = 0 then Inl ZeroDivisionError
         else (case py_delitem (keys h) (n - (index mod n + 1)) of
                 Inl e \<Rightarrow> Inl e
               | Inr ks \<Rightarrow>
                   (case py_delitem (items h) index of
                      Inl e \<Rightarrow> Inl e
                    | Inr its \<Rightarrow> Inr (h\<lparr>keys := ks, items := its\<rparr>))))"

text \<open>The \<^verbatim>\<open>else\<close> branch of \<^verbatim>\<open>update\<close>: the loop over the population.\<close>

fun HallOfFame_update_loop ::
  "('g, 'f::linorder) HallOfFame \<Rightarrow> ('g, 'f) individual list \<Rightarrow> py_error + ('g, 'f) HallOfFame" where
  "HallOfFame_update_loop h [] = Inr h"
| "HallOfFame_update_loop h (ind # rest) =
     (case py_getitem (items h) (- 1) of
        Inl e \<Rightarrow> Inl e
      | Inr worst \<Rightarrow>
          if fitness ind > fitness worst
          then (case HallOfFame_remove h (- 1) of
                  Inl e \<Rightarrow> Inl e
                | Inr h1 \<Rightarrow> HallOfFame_update_loop (HallOfFame_insert h1 ind) rest)
          else HallOfFame_update_loop h rest)"

text \<open>
  \<^verbatim>\<open>sorted(xs, key=key, reverse=True)\<close>: Python reverses, sorts stably and reverses
  again, so that equal keys keep their order.
\<close>

definition sorted_reverse :: "('a \<Rightarrow> 'k::linorder) \<Rightarrow> 'a list \<Rightarrow> 'a list" where
  "sorted_reverse key xs = rev (sort_key key (rev xs))"

text \<open>
  \<^verbatim>\<open>len(self) < self.maxsize\<close> is false in Python 2 when \<open>maxsize\<close> is \<^verbatim>\<open>None\<close>.
\<close>

definition HallOfFame_update ::
  "('g, 'f::linorder) HallOfFame \<Rightarrow> ('g, 'f) individual list \<Rightarrow> py_error + ('g, 'f) HallOfFame" where
  "HallOfFame_update h population =
     (case maxsize h of
        None \<Rightarrow> HallOfFame_update_loop h population
      | Some m \<Rightarrow>
          if int (length (items h)) < m
          then (let its = take (nat m) (sorted_reverse fitness (items h @ population))
                in Inr (h\<lparr>items := its, keys := map fitness (rev its)\<rparr>))
          else HallOfFame_update_loop h population)"

text \<open>A finite sequence of \<^verbatim>\<open>update\<close> calls; the first exception ends it.\<close>

fun HallOfFame_updates ::
  "('g, 'f::linorder) HallOfFame \<Rightarrow> ('g, 'f) individual list list \<Rightarrow> py_error + ('g, 'f) HallOfFame" where
  "HallOfFame_updates h [] = Inr h"
| "HallOfFame_updates h (p # ps) =
     (case HallOfFame_update h p of Inl e \<Rightarrow> Inl e | Inr h1 \<Rightarrow> HallOfFame_updates h1 ps)"


definition ParetoFront_init :: "('g, 'f) HallOfFame" where
  "ParetoFront_init = \<lparr>maxsize = None, keys = [], items = []\<rparr>"

text \<open>
  The inner loop of \<^verbatim>\<open>ParetoFront.update\<close> over \<^verbatim>\<open>enumerate(self)\<close>; it returns
  \<open>(is_dominated, has_twin, to_remove)\<close> and stops at either \<^verbatim>\<open>break\<close>.
\<close>

fun ParetoFront_scan ::
  "('f \<Rightarrow> 'f \<Rightarrow> bool) \<Rightarrow> (('g, 'f) individual \<Rightarrow> ('g, 'f) individual \<Rightarrow> bool) \<Rightarrow>
   ('g, 'f) individual \<Rightarrow> nat \<Rightarrow> ('g, 'f) individual list \<Rightarrow> nat list \<Rightarrow> bool \<times> bool \<times> nat list" where
  "ParetoFront_scan isDominated similar ind i [] to_remove = (False, False, to_remove)"
| "ParetoFront_scan isDominated similar ind i (hofer # rest) to_remove =
     (if isDominated (fitness ind) (fitness hofer) then (True, False, to_remove)
      else if isDominated (fitness hofer) (fitness ind)
      then ParetoFront_scan isDominated similar ind (Suc i) rest (to_remove @ [i])
      else if fitness ind = fitness hofer \<and> similar ind hofer then (False, True, to_remove)
      else ParetoFront_scan isDominated similar ind (Suc i) rest to_remove)"

text \<open>\<^verbatim>\<open>for i in reversed(to_remove): self.remove(i)\<close>, given the reversed list.\<close>

fun remove_all :: "('g, 'f) HallOfFame \<Rightarrow> nat list \<Rightarrow> py_error + ('g, 'f) HallOfFame" where
  "remove_all h [] = Inr h"
| "remove_all h (i # rest) =
     (case HallOfFame_remove h (int i) of Inl e \<Rightarrow> Inl e | Inr h1 \<Rightarrow> remove_all h1 rest)"

fun ParetoFront_update ::
  "('f::linorder \<Rightarrow> 'f \<Rightarrow> bool) \<Rightarrow> (('g, 'f) individual \<Rightarrow> ('g, 'f) individual \<Rightarrow> bool) \<Rightarrow>
   ('g, 'f) HallOfFame \<Rightarrow> ('g, 'f) individual list \<Rightarrow> py_error + ('g, 'f) HallOfFame" where
  "ParetoFront_update isDominated similar h [] = Inr h"
| "ParetoFront_update isDominated similar h (ind # rest) =
     (case ParetoFront_scan isDominated similar ind 0 (items h) [] of
        (is_dominated, has_twin, to_remove) \<Rightarrow>
          (case remove_all h (rev to_remove) of
             Inl e \<Rightarrow> Inl e
           | Inr h1 \<Rightarrow>
               ParetoFront_update isDominated similar
                 (if \<not> is_dominated \<and> \<not> has_twin then HallOfFame_insert h1 ind else h1) rest))"

fun ParetoFront_updates ::
  "('f::linorder \<Rightarrow> 'f \<Rightarrow> bool) \<Rightarrow> (('g, 'f) individual \<Rightarrow> ('g, 'f) individual \<Rightarrow> bool) \<Rightarrow>
   ('g, 'f) HallOfFame \<Rightarrow> ('g, 'f) individual list list \<Rightarrow> py_error + ('g, 'f) HallOfFame" where
  "ParetoFront_updates isDominated similar h [] = Inr h"
| "ParetoFront_updates isDominated similar h (p # ps) =
     (case ParetoFront_update isDominated similar h p of
        Inl e \<Rightarrow> Inl e
      | Inr h1 \<Rightarrow> ParetoFront_updates isDominated similar h1 ps)"

text \<open>Predicates of the archive states used in the statements below.\<close>

definition hof_inv :: "('g, 'f::linorder) HallOfFame \<Rightarrow> bool" where
  "hof_inv h = (keys h = rev (map fitness (items h)) \<and> sorted (keys h))"

definition mutually_nondominated ::
  "('f \<Rightarrow> 'f \<Rightarrow> bool) \<Rightarrow> ('g, 'f) individual list \<Rightarrow> bool" where
  "mutually_nondominated isDominated xs =
     sorted_wrt (\<lambda>a b. \<not> isDominated (fitness a) (fitness b) \<and>
                        \<not> isDominated (fitness b) (fitness a)) xs"

definition pf_inv :: "('f \<Rightarrow> 'f \<Rightarrow> bool) \<Rightarrow> ('g, 'f) HallOfFame \<Rightarrow> bool" where
  "pf_inv isDominated h =
     (length (keys h) = length (items h) \<and> mutually_nondominated isDominated (items h))"

section \<open>Crowding distance (NSGA-II)\<close>

text \<open>
  A crowding distance is a Python float that is either finite or \<^verbatim>\<open>float("inf")\<close>.
  Finite floats are modelled as reals (rounding and overflow are not modelled); the
  order puts \<open>PlusInf\<close> above every finite value, as the float comparison does.
\<close>

datatype dist = Fin real | PlusInf

instantiation dist :: linorder
begin

fun less_eq_dist :: "dist \<Rightarrow> dist \<Rightarrow> bool" where
  "less_eq_dist (Fin a) (Fin b) = (a \<le> b)"
| "less_eq_dist (Fin a) PlusInf = True"
| "less_eq_dist PlusInf (Fin b) = False"
| "less_eq_dist PlusInf PlusInf = True"

definition less_dist :: "dist \<Rightarrow> dist \<Rightarrow> bool" where
  "less_dist x y = (x \<le> y \<and> \<not> y \<le> x)"

instance
proof
  fix x y z :: dist
  show "(x < y) = (x \<le> y \<and> \<not> y \<le> x)" by (simp add: less_dist_def)
  show "x \<le> x" by (cases x) simp_all
  show "x \<le> y \<Longrightarrow> y \<le> z \<Longrightarrow> x \<le> z" by (cases x; cases y; cases z) simp_all
  show "x \<le> y \<Longrightarrow> y \<le> x \<Longrightarrow> x = y" by (cases x; cases y) simp_all
  show "x \<le> y \<or> y \<le> x" by (cases x; cases y) auto
qed

end

text \<open>\<^verbatim>\<open>xs[:n]\<close>: a negative \<open>n\<close> drops from the end.\<close>

definition py_slice_to :: "'a list \<Rightarrow> int \<Rightarrow> 'a list" where
  "py_slice_to xs n = (if n < 0 then take (length xs - nat (- n)) xs else take (nat n) xs)"

text \<open>
  The fitness class is not in \<^verbatim>\<open>tools.py\<close>; the objective values of a fitness
  (\<^verbatim>\<open>fitness.values\<close>) are read through the parameter \<open>fvalues\<close>.

  One pass of the inner loop \<^verbatim>\<open>for j in xrange(1, len(crowding) - 1)\<close> for objective
  \<open>i\<close>: the guarded addition to \<^verbatim>\<open>distances[crowding[j][1]]\<close>.
\<close>

definition crowding_add ::
  "('f \<Rightarrow> real list) \<Rightarrow> nat \<Rightarrow> (('g, 'f) individual \<times> nat) list \<Rightarrow> nat \<Rightarrow> dist list \<Rightarrow> dist list" where
  "crowding_add fvalues i crowding j distances =
     (case distances ! snd (crowding ! j) of
        Fin d \<Rightarrow> distances[snd (crowding ! j) :=
                   Fin (d + (fvalues (fitness (fst (crowding ! (j + 1)))) ! i -
                             fvalues (fitness (fst (crowding ! (j - 1)))) ! i))]
      | PlusInf \<Rightarrow> distances)"

text \<open>
  The body of \<^verbatim>\<open>for i in xrange(number_objectives)\<close>. The sort evaluates its key on
  every element first, which raises \<open>IndexError\<close> when some fitness has no objective
  \<open>i\<close>. \<^verbatim>\<open>list.sort\<close> is stable, as \<open>sort_key\<close> is.
\<close>

definition crowding_step ::
  "('f \<Rightarrow> real list) \<Rightarrow> nat \<Rightarrow> (('g, 'f) individual \<times> nat) list \<times> dist list \<Rightarrow>
   py_error + (('g, 'f) individual \<times> nat) list \<times> dist list" where
  "crowding_step fvalues i st =
     (case st of (crowding, distances) \<Rightarrow>
        if list_ex (\<lambda>e. length (fvalues (fitness (fst e))) \<le> i) crowding then Inl IndexError
        else (case sort_key (\<lambda>e. fvalues (fitness (fst e)) ! i) crowding of
                [] \<Rightarrow> Inl IndexError
              | c # cs \<Rightarrow>
                  (let crowding' = c # cs;
                       distances1 = distances[snd c := PlusInf];
                       distances2 = distances1[snd (last crowding') := PlusInf]
                   in Inr (crowding',
                           fold (crowding_add fvalues i crowding')
                             [1..<length crowding' - 1] distances2))))"

fun crowding_loop ::
  "('f \<Rightarrow> real list) \<Rightarrow> nat list \<Rightarrow> (('g, 'f) individual \<times> nat) list \<times> dist list \<Rightarrow>
   py_error + (('g, 'f) individual \<times> nat) list \<times> dist list" where
  "crowding_loop fvalues [] st = Inr st"
| "crowding_loop fvalues (i # rest) st =
     (case crowding_step fvalues i st of
        Inl e \<Rightarrow> Inl e
      | Inr st' \<Rightarrow> crowding_loop fvalues rest st')"

text \<open>
  The list \<^verbatim>\<open>distances\<close> of \<^verbatim>\<open>sortCrowdingDist\<close> when the loop over the objectives
  has ended (\<^verbatim>\<open>individuals[0]\<close> raises on an empty list).
\<close>

definition crowding_distances ::
  "('f \<Rightarrow> real list) \<Rightarrow> ('g, 'f) individual list \<Rightarrow> py_error + dist list" where
  "crowding_distances fvalues individuals =
     (case individuals of
        [] \<Rightarrow> Inl IndexError
      | ind0 # _ \<Rightarrow>
          (case crowding_loop fvalues [0..<length (fvalues (fitness ind0))]
                  (zip individuals [0..<length individuals],
                   replicate (length individuals) (Fin 0)) of
             Inl e \<Rightarrow> Inl e
           | Inr st \<Rightarrow> Inr (snd st)))"

definition sortCrowdingDist ::
  "('f \<Rightarrow> real list) \<Rightarrow> ('g, 'f) individual list \<Rightarrow> int \<Rightarrow> py_error + ('g, 'f) individual list" where
  "sortCrowdingDist fvalues individuals n =
     (if length individuals = 0 then Inr []
      else (case crowding_distances fvalues individuals of
              Inl e \<Rightarrow> Inl e
            | Inr distances \<Rightarrow>
                (let sorted_dist = sorted_reverse fst (zip distances [0..<length distances])
                 in Inr (map (\<lambda>(dist, index). individuals ! index) (py_slice_to sorted_dist n)))))"

text \<open>The state of the loop over the objectives: a permutation of the enumerated front and one distance per individual.\<close>

definition crowding_state_ok ::
  "('g, 'f) individual list \<Rightarrow> (('g, 'f) individual \<times> nat) list \<times> dist list \<Rightarrow> bool" where
  "crowding_state_ok front st =
     (mset (fst st) = mset (zip front [0..<length front]) \<and> length (snd st) = length front)"

section \<open>Order statistic selection\<close>

text \<open>
  \<^verbatim>\<open>_partition\<close> works on a Python list with int indices, so an index below zero
  reads from the end and an index out of range raises. The two inner \<^verbatim>\<open>while\<close> loops
  move \<open>j\<close> down and \<open>i\<close> up; both end, by a result or by \<open>IndexError\<close>.
\<close>

definition py_setitem :: "'a list \<Rightarrow> int \<Rightarrow> 'a \<Rightarrow> py_error + 'a list" where
  "py_setitem xs i v = (case py_index xs i of Inl e \<Rightarrow> Inl e | Inr k \<Rightarrow> Inr (xs[k := v]))"

text \<open>\<^verbatim>\<open>array[i], array[j] = array[j], array[i]\<close>: both reads, then both writes.\<close>

definition py_swap :: "'a list \<Rightarrow> int \<Rightarrow> int \<Rightarrow> py_error + 'a list" where
  "py_swap array i j =
     (case py_getitem array j of
        Inl e \<Rightarrow> Inl e
      | Inr vj \<Rightarrow>
          (case py_getitem array i of
             Inl e \<Rightarrow> Inl e
           | Inr vi \<Rightarrow>
               (case py_setitem array i vj of
                  Inl e \<Rightarrow> Inl e
                | Inr array1 \<Rightarrow> py_setitem array1 j vi)))"

function scan_down :: "'a::linorder list \<Rightarrow> 'a \<Rightarrow> int \<Rightarrow> py_error + int" where
  "scan_down array x j =
     (if - int (length array) \<le> j \<and> j < int (length array)
      then (if array ! nat (if j < 0 then j + int (length array) else j) > x
            then scan_down array x (j - 1) else Inr j)
      else Inl IndexError)"
  by pat_completeness auto
termination
  by (relation "measure (\<lambda>(array, x, j). nat (j + int (length array) + 1))") auto

declare scan_down.simps [simp del]

function scan_up :: "'a::linorder list \<Rightarrow> 'a \<Rightarrow> int \<Rightarrow> py_error + int" where
  "scan_up array x i =
     (if - int (length array) \<le> i \<and> i < int (length array)
      then (if array ! nat (if i < 0 then i + int (length array) else i) < x
            then scan_up array x (i + 1) else Inr i)
      else Inl IndexError)"
  by pat_completeness auto
termination
  by (relation "measure (\<lambda>(array, x, i). nat (int (length array) - i))") auto

declare scan_up.simps [simp del]

lemma scan_down_bounds:
  "scan_down array x j = Inr j' \<Longrightarrow> - int (length array) \<le> j' \<and> j' \<le> j \<and> j' < int (length array)"
proof (induction array x j rule: scan_down.induct)
  case (1 array x j)
  then show ?case
    by (subst (asm) (2) scan_down.simps) (auto split: if_splits)
qed

lemma length_py_swap: "py_swap array i j = Inr array' \<Longrightarrow> length array' = length array"
  by (auto simp: py_swap_def py_setitem_def split: sum.splits)

text \<open>The \<^verbatim>\<open>while True\<close> loop of \<^verbatim>\<open>_partition\<close>; it returns the array and \<open>j\<close>.\<close>

function partition_loop :: "'a::linorder list \<Rightarrow> 'a \<Rightarrow> int \<Rightarrow> int \<Rightarrow> py_error + 'a list \<times> int" where
  "partition_loop array x i j =
     (case scan_down array x (j - 1) of
        Inl e \<Rightarrow> Inl e
      | Inr j' \<Rightarrow>
          (case scan_up array x (i + 1) of
             Inl e \<Rightarrow> Inl e
           | Inr i' \<Rightarrow>
               if i' < j'
               then (case py_swap array i' j' of
                       Inl e \<Rightarrow> Inl e
                     | Inr array' \<Rightarrow> partition_loop array' x i' j')
               else Inr (array, j')))"
  by pat_completeness auto
termination
proof (relation "measure (\<lambda>(array, x, i, j). nat (j + int (length array) + 1))", goal_cases)
  case 1
  show ?case by simp
next
  case (2 array x i j j' i' array')
  then show ?case
    using scan_down_bounds[of array x "j - 1" j'] length_py_swap[of array i' j' array'] by simp
qed

declare partition_loop.simps [simp del]

definition partition_array :: "'a::linorder list \<Rightarrow> int \<Rightarrow> int \<Rightarrow> py_error + 'a list \<times> int" where
  "partition_array array begin end =
     (case py_getitem array begin of
        Inl e \<Rightarrow> Inl e
      | Inr x \<Rightarrow> partition_loop array x (begin - 1) (end + 1))"

text \<open>
  The random source is a sequence \<open>rng\<close> of natural numbers and the number \<open>t\<close> of draws
  made so far; \<^verbatim>\<open>random.randint(begin, end)\<close> maps the next one into \<open>begin..end\<close>
  and raises \<open>ValueError\<close> on an empty range. Every sequence of pivot choices is the
  result of some \<open>rng\<close>.
\<close>

definition randint :: "(nat \<Rightarrow> nat) \<Rightarrow> nat \<Rightarrow> int \<Rightarrow> int \<Rightarrow> py_error + int \<times> nat" where
  "randint rng t a b =
     (if b < a then Inl ValueError
      else Inr (a + int (rng t mod nat (b - a + 1)), Suc t))"

text \<open>\<^verbatim>\<open>_randomizedPartition\<close> once the pivot index \<open>i\<close> is drawn.\<close>

definition pivot_partition :: "'a::linorder list \<Rightarrow> int \<Rightarrow> int \<Rightarrow> int \<Rightarrow> py_error + 'a list \<times> int" where
  "pivot_partition array begin end i =
     (case py_swap array begin i of
        Inl e \<Rightarrow> Inl e
      | Inr array' \<Rightarrow> partition_array array' begin end)"

definition randomizedPartition ::
  "(nat \<Rightarrow> nat) \<Rightarrow> nat \<Rightarrow> 'a::linorder list \<Rightarrow> int \<Rightarrow> int \<Rightarrow> py_error + ('a list \<times> int) \<times> nat" where
  "randomizedPartition rng t array begin end =
     (case randint rng t begin end of
        Inl e \<Rightarrow> Inl e
      | Inr (i, t') \<Rightarrow>
          (case pivot_partition array begin end i of
             Inl e \<Rightarrow> Inl e
           | Inr r \<Rightarrow> Inr (r, t')))"

text \<open>
  \<^verbatim>\<open>_randomizedSelect\<close>. The rank \<open>i\<close> is a float at its call site
  (\<^verbatim>\<open>math.sqrt(N)\<close>), so it is a real here. The recursion has no bound of its own:
  \<open>None\<close> stands for a call that does not return. The result is the selected element
  and the number of draws made.
\<close>

partial_function (option) randomizedSelect ::
  "(nat \<Rightarrow> nat) \<Rightarrow> nat \<Rightarrow> 'a::linorder list \<Rightarrow> int \<Rightarrow> int \<Rightarrow> real \<Rightarrow> (py_error + 'a \<times> nat) option" where
  "randomizedSelect rng t array begin end i =
     (if begin = end
      then Some (case py_getitem array begin of Inl e \<Rightarrow> Inl e | Inr v \<Rightarrow> Inr (v, t))
      else (case randomizedPartition rng t array begin end of
              Inl e \<Rightarrow> Some (Inl e)
            | Inr ((array', q), t') \<Rightarrow>
                if i < real_of_int (q - begin + 1)
                then randomizedSelect rng t' array' begin q i
                else randomizedSelect rng t' array' (q + 1) end (i - real_of_int (q - begin + 1))))"

declare randomizedSelect.simps [code]

text \<open>
  The results of \<^verbatim>\<open>_randomizedSelect\<close> over every pivot choice, to a recursion depth
  \<open>fuel\<close>; \<open>None\<close> marks a branch cut at that depth.
\<close>

fun select_outcomes :: "nat \<Rightarrow> 'a::linorder list \<Rightarrow> int \<Rightarrow> int \<Rightarrow> real \<Rightarrow> (py_error + 'a) option list" where
  "select_outcomes 0 array begin end i = [None]"
| "select_outcomes (Suc fuel) array begin end i =
     (if begin = end then [Some (py_getitem array begin)]
      else if end < begin then [Some (Inl ValueError)]
      else concat (map (\<lambda>p.
             case pivot_partition array begin end p of
               Inl e \<Rightarrow> [Some (Inl e)]
             | Inr (array', q) \<Rightarrow>
                 if i < real_of_int (q - begin + 1)
                 then select_outcomes fuel array' begin q i
                 else select_outcomes fuel array' (q + 1) end (i - real_of_int (q - begin + 1)))
           [begin..end]))"

text \<open>A random source whose every draw selects the first index of the range.\<close>

definition always_first :: "nat \<Rightarrow> nat" where
  "always_first t = 0"

section \<open>Archives: proofs\<close>

lemma py_index_range: "0 \<le> i \<Longrightarrow> i < int (length xs) \<Longrightarrow> py_index xs i = Inr (nat i)"
  by (simp add: py_index_def)

lemma py_insert_in_range:
  "k \<le> length xs \<Longrightarrow> py_insert xs (int k) x = take k xs @ x # drop k xs"
  by (simp add: py_insert_def Let_def min_def)

lemma length_py_insert: "length (py_insert xs i x) = Suc (length xs)"
  by (simp add: py_insert_def Let_def)

lemma mset_py_insert: "mset (py_insert xs i x) = add_mset x (mset xs)"
proof -
  have "mset (take k xs @ x # drop k xs) = add_mset x (mset xs)" for k
    by (metis append_take_drop_id mset.simps(2) union_code union_mset_add_mset_right mset_append)
  then show ?thesis by (simp add: py_insert_def Let_def)
qed

lemma bisect_right_loop_spec:
  "sorted a \<Longrightarrow> lo \<le> hi \<Longrightarrow> hi \<le> length a \<Longrightarrow>
   (\<forall>k<lo. a ! k \<le> x) \<Longrightarrow> (\<forall>k. hi \<le> k \<and> k < length a \<longrightarrow> x < a ! k) \<Longrightarrow>
   lo \<le> bisect_right_loop a x lo hi \<and> bisect_right_loop a x lo hi \<le> hi \<and>
   (\<forall>k<bisect_right_loop a x lo hi. a ! k \<le> x) \<and>
   (\<forall>k. bisect_right_loop a x lo hi \<le> k \<and> k < length a \<longrightarrow> x < a ! k)"
proof (induction a x lo hi rule: bisect_right_loop.induct)
  case (1 a x lo hi)
  show ?case
  proof (cases "lo < hi")
    case False
    then have "bisect_right_loop a x lo hi = lo"
      by (subst bisect_right_loop.simps) simp
    with False "1.prems" show ?thesis by simp
  next
    case True
    define mid where "mid = (lo + hi) div 2"
    have mid: "lo \<le> mid" "mid < hi" using True by (auto simp: mid_def)
    show ?thesis
    proof (cases "x < a ! mid")
      case lt: True
      have up: "\<forall>k. mid \<le> k \<and> k < length a \<longrightarrow> x < a ! k"
      proof (intro allI impI)
        fix k assume "mid \<le> k \<and> k < length a"
        then have "a ! mid \<le> a ! k" using \<open>sorted a\<close> by (simp add: sorted_nth_mono)
        with lt show "x < a ! k" by simp
      qed
      have "lo \<le> bisect_right_loop a x lo mid \<and> bisect_right_loop a x lo mid \<le> mid \<and>
        (\<forall>k<bisect_right_loop a x lo mid. a ! k \<le> x) \<and>
        (\<forall>k. bisect_right_loop a x lo mid \<le> k \<and> k < length a \<longrightarrow> x < a ! k)"
        using "1.IH"(1)[OF True mid_def lt "1.prems"(1) mid(1)] mid "1.prems" up by simp
      moreover have "bisect_right_loop a x lo hi = bisect_right_loop a x lo mid"
        using True lt by (subst bisect_right_loop.simps) (simp add: mid_def Let_def)
      ultimately show ?thesis using mid by auto
    next
      case ge: False
      have low: "\<forall>k<mid + 1. a ! k \<le> x"
      proof (intro allI impI)
        fix k assume "k < mid + 1"
        then have "a ! k \<le> a ! mid" using \<open>sorted a\<close> mid "1.prems" by (simp add: sorted_nth_mono)
        with ge show "a ! k \<le> x" by simp
      qed
      have "mid + 1 \<le> bisect_right_loop a x (mid + 1) hi \<and> bisect_right_loop a x (mid + 1) hi \<le> hi \<and>
        (\<forall>k<bisect_right_loop a x (mid + 1) hi. a ! k \<le> x) \<and>
        (\<forall>k. bisect_right_loop a x (mid + 1) hi \<le> k \<and> k < length a \<longrightarrow> x < a ! k)"
        using "1.IH"(2)[OF True mid_def ge "1.prems"(1)] mid "1.prems" low by simp
      moreover have "bisect_right_loop a x lo hi = bisect_right_loop a x (mid + 1) hi"
        using True ge by (subst bisect_right_loop.simps) (simp add: mid_def Let_def)
      ultimately show ?thesis using mid by auto
    qed
  qed
qed

lemma bisect_right_spec:
  assumes "sorted a"
  shows "bisect_right a x \<le> length a"
    and "\<forall>y\<in>set (take (bisect_right a x) a). y \<le> x"
    and "\<forall>y\<in>set (drop (bisect_right a x) a). x < y"
proof -
  let ?i = "bisect_right a x"
  have "\<forall>k<0. a ! k \<le> x" "\<forall>k. length a \<le> k \<and> k < length a \<longrightarrow> x < a ! k"
    by auto
  from bisect_right_loop_spec[OF assms _ _ this]
  have s: "0 \<le> ?i \<and> ?i \<le> length a \<and> (\<forall>k< ?i. a ! k \<le> x) \<and>
      (\<forall>k. ?i \<le> k \<and> k < length a \<longrightarrow> x < a ! k)"
    unfolding bisect_right_def by simp
  show "?i \<le> length a" using s by simp
  show "\<forall>y\<in>set (take ?i a). y \<le> x"
    using s by (auto simp: in_set_conv_nth)
  show "\<forall>y\<in>set (drop ?i a). x < y"
    using s by (auto simp: in_set_conv_nth)
qed

lemma sorted_insert_at:
  assumes "sorted a"
  shows "sorted (take (bisect_right a x) a @ x # drop (bisect_right a x) a)"
proof -
  have "sorted (take (bisect_right a x) a)" "sorted (drop (bisect_right a x) a)"
    using assms by (simp_all add: sorted_wrt_take sorted_wrt_drop)
  moreover have "\<forall>y\<in>set (take (bisect_right a x) a). \<forall>z\<in>set (drop (bisect_right a x) a). y \<le> z"
    using bisect_right_spec(2,3)[OF assms, of x] by fastforce
  ultimately show ?thesis
    using bisect_right_spec(2,3)[OF assms, of x] by (auto simp: sorted_append less_imp_le)
qed

lemma rev_map_insert_at:
  assumes "i \<le> length xs"
  shows "rev (map f (take (length xs - i) xs @ x # drop (length xs - i) xs)) =
     take i (rev (map f xs)) @ f x # drop i (rev (map f xs))"
proof -
  have a: "rev (drop (length xs - i) (map f xs)) = take i (rev (map f xs))"
    using assms by (simp add: rev_drop)
  have b: "rev (take (length xs - i) (map f xs)) = drop i (rev (map f xs))"
    using assms by (simp add: rev_take)
  show ?thesis using a b by (simp add: take_map drop_map)
qed

lemma HallOfFame_insert_items:
  assumes "hof_inv h"
  shows "items (HallOfFame_insert h x) =
         take (length (items h) - bisect_right (keys h) (fitness x)) (items h) @ x #
         drop (length (items h) - bisect_right (keys h) (fitness x)) (items h)"
proof -
  have "length (keys h) = length (items h)" "sorted (keys h)"
    using assms unfolding hof_inv_def by (metis length_rev length_map, blast)
  then have le: "bisect_right (keys h) (fitness x) \<le> length (items h)"
    using bisect_right_spec(1)[of "keys h" "fitness x"] by simp
  then have "int (length (items h)) - int (bisect_right (keys h) (fitness x)) =
        int (length (items h) - bisect_right (keys h) (fitness x))" by simp
  then show ?thesis
    by (simp add: HallOfFame_insert_def Let_def py_insert_in_range del: of_nat_diff)
qed

lemma HallOfFame_insert_inv:
  assumes "hof_inv h"
  shows "hof_inv (HallOfFame_insert h x)"
proof -
  let ?i = "bisect_right (keys h) (fitness x)"
  let ?n = "length (items h)"
  have "length (keys h) = length (items h)" "sorted (keys h)"
    using assms unfolding hof_inv_def by (metis length_rev length_map, blast)
  then have le: "?i \<le> ?n"
    using bisect_right_spec(1)[of "keys h" "fitness x"] by simp
  have k: "keys (HallOfFame_insert h x) = take ?i (keys h) @ fitness x # drop ?i (keys h)"
    using le assms by (simp add: HallOfFame_insert_def Let_def py_insert_in_range hof_inv_def)
  have "rev (map fitness (items (HallOfFame_insert h x))) =
        take ?i (rev (map fitness (items h))) @ fitness x # drop ?i (rev (map fitness (items h)))"
    unfolding HallOfFame_insert_items[OF assms] using le by (rule rev_map_insert_at)
  then show ?thesis
    using k assms sorted_insert_at[of "keys h" "fitness x"] unfolding hof_inv_def by metis
qed

lemma HallOfFame_insert_length: "length (items (HallOfFame_insert h x)) = Suc (length (items h))"
  by (simp add: HallOfFame_insert_def Let_def length_py_insert)

lemma HallOfFame_insert_maxsize: "maxsize (HallOfFame_insert h x) = maxsize h"
  by (simp add: HallOfFame_insert_def Let_def)


lemma py_delitem_first: "xs \<noteq> [] \<Longrightarrow> py_delitem xs 0 = Inr (tl xs)"
  by (cases xs) (simp_all add: py_delitem_def py_index_def)

lemma py_delitem_last: "xs \<noteq> [] \<Longrightarrow> py_delitem xs (- 1) = Inr (butlast xs)"
  by (cases xs rule: rev_cases) (simp_all add: py_delitem_def py_index_def nat_add_distrib)

lemma py_getitem_last: "xs \<noteq> [] \<Longrightarrow> py_getitem xs (- 1) = Inr (last xs)"
  by (cases xs rule: rev_cases) (simp_all add: py_getitem_def py_index_def nat_add_distrib)

lemma HallOfFame_remove_last:
  assumes "hof_inv h" "items h \<noteq> []"
  shows "\<exists>h1. HallOfFame_remove h (- 1) = Inr h1 \<and> hof_inv h1 \<and>
          items h1 = butlast (items h) \<and> maxsize h1 = maxsize h"
proof -
  have k: "keys h \<noteq> []" "sorted (keys h)" "keys h = rev (map fitness (items h))"
    using assms unfolding hof_inv_def by auto
  have m: "int (length (items h)) - ((- 1) mod int (length (items h)) + 1) = 0"
    using assms(2) by (simp add: zmod_minus1)
  have r: "HallOfFame_remove h (- 1) = Inr (h\<lparr>keys := tl (keys h), items := butlast (items h)\<rparr>)"
    using assms(2) k(1) unfolding HallOfFame_remove_def Let_def m
    by (simp add: py_delitem_first py_delitem_last)
  have "tl (keys h) = rev (map fitness (butlast (items h)))"
    using k(3) assms(2) by (cases "items h" rule: rev_cases) simp_all
  moreover have "sorted (tl (keys h))" using k(2) by (simp add: sorted_tl)
  ultimately show ?thesis using r by (simp add: hof_inv_def)
qed

lemma HallOfFame_update_loop_inv:
  assumes "hof_inv h" "items h \<noteq> []"
  shows "\<exists>h1. HallOfFame_update_loop h pop = Inr h1 \<and> hof_inv h1 \<and>
          length (items h1) = length (items h) \<and> maxsize h1 = maxsize h"
  using assms
proof (induction pop arbitrary: h)
  case Nil
  then show ?case by simp
next
  case (Cons ind rest)
  show ?case
  proof (cases "fitness ind > fitness (last (items h))")
    case False
    then show ?thesis using Cons by (simp add: py_getitem_last)
  next
    case True
    obtain h1 where h1: "HallOfFame_remove h (- 1) = Inr h1" "hof_inv h1"
      "items h1 = butlast (items h)" "maxsize h1 = maxsize h"
      using HallOfFame_remove_last[OF Cons.prems] by blast
    let ?h2 = "HallOfFame_insert h1 ind"
    have inv2: "hof_inv ?h2" using h1(2) by (rule HallOfFame_insert_inv)
    have len2: "length (items ?h2) = length (items h)"
      using h1(3) Cons.prems(2) by (simp add: HallOfFame_insert_length)
    then have ne2: "items ?h2 \<noteq> []" using Cons.prems(2) by auto
    from Cons.IH[OF inv2 ne2] len2 h1 True Cons.prems
    show ?thesis by (simp add: py_getitem_last HallOfFame_insert_maxsize)
  qed
qed

lemma sorted_reverse_props:
  "length (sorted_reverse f xs) = length xs"
  "sorted (rev (map f (sorted_reverse f xs)))"
  "mset (sorted_reverse f xs) = mset xs"
  by (simp_all add: sorted_reverse_def rev_map)

lemma HallOfFame_update_inv:
  assumes "hof_inv h" "maxsize h = Some M" "1 \<le> M" "int (length (items h)) \<le> M"
  shows "\<exists>h1. HallOfFame_update h pop = Inr h1 \<and> hof_inv h1 \<and> maxsize h1 = Some M \<and>
           int (length (items h1)) \<le> M"
proof (cases "int (length (items h)) < M")
  case True
  let ?S = "sorted_reverse fitness (items h @ pop)"
  let ?its = "take (nat M) ?S"
  have u: "HallOfFame_update h pop = Inr (h\<lparr>items := ?its, keys := map fitness (rev ?its)\<rparr>)"
    using True assms(2) by (simp add: HallOfFame_update_def Let_def)
  have "rev (map fitness ?its) = drop (length ?S - nat M) (rev (map fitness ?S))"
    by (simp add: take_map[symmetric] rev_take)
  then have "sorted (rev (map fitness ?its))"
    using sorted_reverse_props(2)[of fitness "items h @ pop"] by (simp add: sorted_wrt_drop)
  then show ?thesis using u assms by (simp add: hof_inv_def rev_map)
next
  case False
  then have ne: "items h \<noteq> []" using assms by auto
  have u: "HallOfFame_update h pop = HallOfFame_update_loop h pop"
    using False assms(2) by (simp add: HallOfFame_update_def)
  show ?thesis using HallOfFame_update_loop_inv[OF assms(1) ne, of pop] u assms by auto
qed

lemma HallOfFame_updates_inv:
  assumes "hof_inv h" "maxsize h = Some M" "1 \<le> M" "int (length (items h)) \<le> M"
  shows "\<exists>h1. HallOfFame_updates h pops = Inr h1 \<and> hof_inv h1 \<and> maxsize h1 = Some M \<and>
           int (length (items h1)) \<le> M"
  using assms
proof (induction pops arbitrary: h)
  case Nil
  then show ?case by simp
next
  case (Cons p ps)
  obtain h1 where h1: "HallOfFame_update h p = Inr h1" "hof_inv h1" "maxsize h1 = Some M"
    "int (length (items h1)) \<le> M"
    using HallOfFame_update_inv[OF Cons.prems] by blast
  from Cons.IH[OF h1(2,3) Cons.prems(3) h1(4)] h1(1) show ?case by simp
qed

lemma hof_inv_sorted_desc:
  assumes "hof_inv h" "Suc i < length (items h)"
  shows "fitness (items h ! Suc i) \<le> fitness (items h ! i)"
proof -
  have "sorted (rev (map fitness (items h)))" using assms(1) unfolding hof_inv_def by metis
  then have "sorted_wrt (\<lambda>a b. b \<le> a) (map fitness (items h))"
    by (simp add: sorted_wrt_rev)
  then show ?thesis using assms(2) by (simp add: sorted_wrt_iff_nth_less)
qed

text \<open>
  Claim C5. After any finite sequence of \<^verbatim>\<open>HallOfFame.update\<close> calls on a
  \<^verbatim>\<open>HallOfFame\<close> with \<open>maxsize = M \<ge> 1\<close> and a totally ordered fitness, no call raises,
  \<open>items[i].fitness \<ge> items[i+1].fitness\<close> holds for every valid index and
  \<open>len(items) \<le> M\<close>.
\<close>

theorem HallOfFame_update_order_invariant:
  assumes "1 \<le> M"
  shows "\<exists>h. HallOfFame_updates (HallOfFame_init M) pops = Inr h \<and>
           (\<forall>i. Suc i < length (items h) \<longrightarrow> fitness (items h ! Suc i) \<le> fitness (items h ! i)) \<and>
           int (length (items h)) \<le> M"
proof -
  have "hof_inv (HallOfFame_init M :: ('a, 'b::linorder) HallOfFame)"
    by (simp add: hof_inv_def HallOfFame_init_def)
  from HallOfFame_updates_inv[OF this, of M pops] assms
  obtain h where "HallOfFame_updates (HallOfFame_init M) pops = Inr h" "hof_inv h"
    "int (length (items h)) \<le> M"
    by (auto simp: HallOfFame_init_def)
  then show ?thesis using hof_inv_sorted_desc by blast
qed

theorem HallOfFame_update_order_invariant_witness:
  "(1::int) \<le> 2 \<and>
   HallOfFame_updates (HallOfFame_init 2)
     [[\<lparr>genome = (), fitness = 5::int\<rparr>, \<lparr>genome = (), fitness = 3\<rparr>],
      [\<lparr>genome = (), fitness = 4\<rparr>, \<lparr>genome = (), fitness = 6\<rparr>]]
   = Inr \<lparr>maxsize = Some 2, keys = [5, 6],
          items = [\<lparr>genome = (), fitness = 6\<rparr>, \<lparr>genome = (), fitness = 5\<rparr>]\<rparr> \<and>
   (\<exists>h. HallOfFame_updates (HallOfFame_init 2)
     [[\<lparr>genome = (), fitness = 5::int\<rparr>, \<lparr>genome = (), fitness = 3\<rparr>],
      [\<lparr>genome = (), fitness = 4\<rparr>, \<lparr>genome = (), fitness = 6\<rparr>]] = Inr h \<and>
     fitness (items h ! Suc 0) \<le> fitness (items h ! 0) \<and> int (length (items h)) \<le> 2)"
proof -
  let ?pops = "[[\<lparr>genome = (), fitness = 5::int\<rparr>, \<lparr>genome = (), fitness = 3\<rparr>],
      [\<lparr>genome = (), fitness = 4\<rparr>, \<lparr>genome = (), fitness = 6\<rparr>]]"
  have run: "HallOfFame_updates (HallOfFame_init 2) ?pops
     = Inr \<lparr>maxsize = Some 2, keys = [5, 6],
          items = [\<lparr>genome = (), fitness = 6\<rparr>, \<lparr>genome = (), fitness = 5\<rparr>]\<rparr>"
    by code_simp
  have one: "(1::int) \<le> 2" by simp
  from HallOfFame_update_order_invariant[OF one, of ?pops]
  obtain h where h: "HallOfFame_updates (HallOfFame_init 2) ?pops = Inr h"
    "\<forall>i. Suc i < length (items h) \<longrightarrow> fitness (items h ! Suc i) \<le> fitness (items h ! i)"
    "int (length (items h)) \<le> 2" by blast
  from h(1) run have "Suc 0 < length (items h)" by simp
  with h(2) have "fitness (items h ! Suc 0) \<le> fitness (items h ! 0)" by blast
  with h(1,3) run one show ?thesis by blast
qed

text \<open>
  Claim C10. On a \<^verbatim>\<open>HallOfFame\<close> that already holds exactly \<open>maxsize\<close> items,
  \<^verbatim>\<open>insert(item)\<close> makes the length \<open>maxsize + 1\<close>: the item is added, every old item
  is kept (nothing is evicted) and \<open>maxsize\<close> is unchanged; when the archive was in
  order before, the new item stands at its sorted position, that is, the archive is in
  order after.
\<close>

theorem HallOfFame_insert_full:
  assumes "maxsize h = Some M" "int (length (items h)) = M"
  shows "int (length (items (HallOfFame_insert h item))) = M + 1 \<and>
         mset (items (HallOfFame_insert h item)) = add_mset item (mset (items h)) \<and>
         maxsize (HallOfFame_insert h item) = Some M \<and>
         (hof_inv h \<longrightarrow> hof_inv (HallOfFame_insert h item))"
  using assms HallOfFame_insert_inv[of h item]
  by (simp add: HallOfFame_insert_def Let_def length_py_insert mset_py_insert)

theorem HallOfFame_insert_full_witness:
  "maxsize \<lparr>maxsize = Some 2, keys = [5, 6::int],
      items = [\<lparr>genome = (), fitness = 6\<rparr>, \<lparr>genome = (), fitness = 5\<rparr>]\<rparr> = Some 2 \<and>
   hof_inv \<lparr>maxsize = Some 2, keys = [5, 6::int],
      items = [\<lparr>genome = (), fitness = 6\<rparr>, \<lparr>genome = (), fitness = 5\<rparr>]\<rparr> \<and>
   int (length (items (HallOfFame_insert \<lparr>maxsize = Some 2, keys = [5, 6::int],
      items = [\<lparr>genome = (), fitness = 6\<rparr>, \<lparr>genome = (), fitness = 5\<rparr>]\<rparr>
      \<lparr>genome = (), fitness = 7\<rparr>))) = 3 \<and>
   hof_inv (HallOfFame_insert \<lparr>maxsize = Some 2, keys = [5, 6::int],
      items = [\<lparr>genome = (), fitness = 6\<rparr>, \<lparr>genome = (), fitness = 5\<rparr>]\<rparr>
      \<lparr>genome = (), fitness = 7\<rparr>)"
proof -
  let ?h = "\<lparr>maxsize = Some 2, keys = [5, 6::int],
      items = [\<lparr>genome = (), fitness = 6\<rparr>, \<lparr>genome = (), fitness = 5\<rparr>]\<rparr>"
  have a: "maxsize ?h = Some 2" "int (length (items ?h)) = 2" by simp_all
  have b: "hof_inv ?h" by (simp add: hof_inv_def)
  from HallOfFame_insert_full[OF a, of "\<lparr>genome = (), fitness = 7\<rparr>"] a b
  show ?thesis by simp
qed

lemma py_insert_form: "\<exists>j. py_insert xs i x = take j xs @ x # drop j xs"
  by (auto simp: py_insert_def Let_def)

lemma sorted_wrt_filter_prefix:
  assumes "sorted_wrt R xs"
  shows "sorted_wrt R (filter Q (take m xs) @ drop m xs)"
proof -
  have "sorted_wrt R (take m xs @ drop m xs)" using assms by simp
  then have "sorted_wrt R (take m xs)" "sorted_wrt R (drop m xs)"
    "\<forall>x\<in>set (take m xs). \<forall>y\<in>set (drop m xs). R x y"
    unfolding sorted_wrt_append by auto
  then show ?thesis by (auto simp: sorted_wrt_append sorted_wrt_filter)
qed

lemma sorted_wrt_insert_sym:
  assumes "sorted_wrt R xs" "\<forall>x\<in>set xs. R x a \<and> R a x"
  shows "sorted_wrt R (take j xs @ a # drop j xs)"
proof -
  have "sorted_wrt R (take j xs @ drop j xs)" using assms(1) by simp
  then have "sorted_wrt R (take j xs)" "sorted_wrt R (drop j xs)"
    "\<forall>x\<in>set (take j xs). \<forall>y\<in>set (drop j xs). R x y"
    unfolding sorted_wrt_append by auto
  moreover have "\<forall>x\<in>set (take j xs). R x a" "\<forall>x\<in>set (drop j xs). R a x"
    using assms(2) by (auto dest: in_set_takeD in_set_dropD)
  ultimately show ?thesis by (auto simp: sorted_wrt_append)
qed

lemma HallOfFame_remove_index:
  assumes "length (keys h) = length (items h)" "i < length (items h)"
  shows "\<exists>h1. HallOfFame_remove h (int i) = Inr h1 \<and>
           items h1 = take i (items h) @ drop (Suc i) (items h) \<and>
           length (keys h1) = length (items h1)"
proof -
  let ?n = "int (length (items h))"
  have m: "?n - (int i mod ?n + 1) = int (length (items h) - Suc i)"
    using assms(2) by simp
  have "py_index (keys h) (int (length (items h) - Suc i)) = Inr (length (items h) - Suc i)"
    using assms by (simp add: py_index_def)
  moreover have "py_index (items h) (int i) = Inr i"
    using assms by (simp add: py_index_def)
  moreover have "items h \<noteq> []" using assms(2) by auto
  ultimately show ?thesis
    using assms unfolding HallOfFame_remove_def Let_def m py_delitem_def by simp
qed

lemma remove_all_filter:
  assumes "length (keys h) = length (items h)" "m \<le> length (items h)"
  shows "\<exists>h1. remove_all h (rev [k \<leftarrow> [0..<m]. P (items h ! k)]) = Inr h1 \<and>
           items h1 = filter (\<lambda>x. \<not> P x) (take m (items h)) @ drop m (items h) \<and>
           length (keys h1) = length (items h1)"
  using assms
proof (induction m arbitrary: h)
  case 0
  then show ?case by simp
next
  case (Suc m)
  let ?xs = "items h"
  have m: "m < length ?xs" using Suc.prems by simp
  show ?case
  proof (cases "P (?xs ! m)")
    case False
    from Suc.IH[OF Suc.prems(1)] m
    obtain h1 where h1: "remove_all h (rev [k \<leftarrow> [0..<m]. P (?xs ! k)]) = Inr h1"
      "items h1 = filter (\<lambda>x. \<not> P x) (take m ?xs) @ drop m ?xs"
      "length (keys h1) = length (items h1)" by auto
    have "filter (\<lambda>x. \<not> P x) (take (Suc m) ?xs) @ drop (Suc m) ?xs =
          filter (\<lambda>x. \<not> P x) (take m ?xs) @ drop m ?xs"
      using False m by (simp add: take_Suc_conv_app_nth Cons_nth_drop_Suc)
    then show ?thesis using h1 False by simp
  next
    case True
    obtain h0 where h0: "HallOfFame_remove h (int m) = Inr h0"
      "items h0 = take m ?xs @ drop (Suc m) ?xs" "length (keys h0) = length (items h0)"
      using HallOfFame_remove_index[OF Suc.prems(1) m] by blast
    have le: "m \<le> length (items h0)" using h0(2) m by simp
    have same: "[k \<leftarrow> [0..<m]. P (items h0 ! k)] = [k \<leftarrow> [0..<m]. P (?xs ! k)]"
      using h0(2) m by (intro filter_cong) (auto simp: nth_append)
    from Suc.IH[OF h0(3) le, unfolded same]
    obtain h1 where h1: "remove_all h0 (rev [k \<leftarrow> [0..<m]. P (?xs ! k)]) = Inr h1"
      "items h1 = filter (\<lambda>x. \<not> P x) (take m (items h0)) @ drop m (items h0)"
      "length (keys h1) = length (items h1)" by auto
    have "take m (items h0) = take m ?xs" "drop m (items h0) = drop (Suc m) ?xs"
      using h0(2) m by simp_all
    then have "items h1 = filter (\<lambda>x. \<not> P x) (take (Suc m) ?xs) @ drop (Suc m) ?xs"
      using h1(2) True m by (simp add: take_Suc_conv_app_nth)
    then show ?thesis using h1 h0(1) True by simp
  qed
qed

lemma ParetoFront_scan_spec:
  assumes "i \<le> length ys"
    and "ParetoFront_scan isDominated similar ind i (drop i ys)
           [k \<leftarrow> [0..<i]. isDominated (fitness (ys ! k)) (fitness ind)] = (d, t, rm)"
  shows "\<exists>m\<le>length ys. rm = [k \<leftarrow> [0..<m]. isDominated (fitness (ys ! k)) (fitness ind)] \<and>
           (\<not> d \<and> \<not> t \<longrightarrow> m = length ys \<and>
              (\<forall>k. i \<le> k \<and> k < length ys \<longrightarrow> \<not> isDominated (fitness ind) (fitness (ys ! k))))"
  using assms
proof (induction "length ys - i" arbitrary: i)
  case 0
  then have "i = length ys" by simp
  with 0 show ?case by auto
next
  case (Suc n)
  then have i: "i < length ys" by simp
  have d: "drop i ys = ys ! i # drop (Suc i) ys" using i by (simp add: Cons_nth_drop_Suc)
  have n: "n = length ys - Suc i" using Suc.hyps(2) by simp
  have up: "[k \<leftarrow> [0..<Suc i]. isDominated (fitness (ys ! k)) (fitness ind)] =
            [k \<leftarrow> [0..<i]. isDominated (fitness (ys ! k)) (fitness ind)] @
            (if isDominated (fitness (ys ! i)) (fitness ind) then [i] else [])" by simp
  consider (dom) "isDominated (fitness ind) (fitness (ys ! i))"
    | (rem) "\<not> isDominated (fitness ind) (fitness (ys ! i))" "isDominated (fitness (ys ! i)) (fitness ind)"
    | (twin) "\<not> isDominated (fitness ind) (fitness (ys ! i))" "\<not> isDominated (fitness (ys ! i)) (fitness ind)"
        "fitness ind = fitness (ys ! i) \<and> similar ind (ys ! i)"
    | (skip) "\<not> isDominated (fitness ind) (fitness (ys ! i))" "\<not> isDominated (fitness (ys ! i)) (fitness ind)"
        "\<not> (fitness ind = fitness (ys ! i) \<and> similar ind (ys ! i))"
    by blast
  then show ?case
  proof cases
    case dom
    with Suc.prems(2) d have "d" "rm = [k \<leftarrow> [0..<i]. isDominated (fitness (ys ! k)) (fitness ind)]"
      by auto
    then show ?thesis using i by (intro exI[of _ i]) simp
  next
    case rem
    with Suc.prems(2) d up
    have "ParetoFront_scan isDominated similar ind (Suc i) (drop (Suc i) ys)
           [k \<leftarrow> [0..<Suc i]. isDominated (fitness (ys ! k)) (fitness ind)] = (d, t, rm)"
      by simp
    from Suc.hyps(1)[OF n _ this] i rem show ?thesis
      by (metis Suc_leI le_eq_less_or_eq not_less_eq_eq)
  next
    case twin
    with Suc.prems(2) d have "t" "rm = [k \<leftarrow> [0..<i]. isDominated (fitness (ys ! k)) (fitness ind)]"
      by auto
    then show ?thesis using i by (intro exI[of _ i]) simp
  next
    case skip
    with Suc.prems(2) d up
    have "ParetoFront_scan isDominated similar ind (Suc i) (drop (Suc i) ys)
           [k \<leftarrow> [0..<Suc i]. isDominated (fitness (ys ! k)) (fitness ind)] = (d, t, rm)"
      by simp
    from Suc.hyps(1)[OF n _ this] i skip show ?thesis
      by (metis Suc_leI le_eq_less_or_eq not_less_eq_eq)
  qed
qed


lemma HallOfFame_insert_pf_inv:
  assumes "pf_inv isDominated h"
    and "\<forall>x\<in>set (items h). \<not> isDominated (fitness x) (fitness ind) \<and>
                            \<not> isDominated (fitness ind) (fitness x)"
  shows "pf_inv isDominated (HallOfFame_insert h ind)"
proof -
  obtain j where j: "items (HallOfFame_insert h ind) = take j (items h) @ ind # drop j (items h)"
    using py_insert_form[of "items h" _ ind] by (auto simp: HallOfFame_insert_def Let_def)
  have "length (keys (HallOfFame_insert h ind)) = length (items (HallOfFame_insert h ind))"
    using assms(1) by (simp add: HallOfFame_insert_def Let_def length_py_insert pf_inv_def)
  moreover have "mutually_nondominated isDominated (items (HallOfFame_insert h ind))"
    unfolding mutually_nondominated_def j
    by (rule sorted_wrt_insert_sym)
       (use assms in \<open>auto simp: pf_inv_def mutually_nondominated_def\<close>)
  ultimately show ?thesis by (simp add: pf_inv_def)
qed

lemma ParetoFront_update_inv:
  assumes "pf_inv isDominated h"
  shows "\<exists>h1. ParetoFront_update isDominated similar h pop = Inr h1 \<and> pf_inv isDominated h1"
  using assms
proof (induction pop arbitrary: h)
  case Nil
  then show ?case by simp
next
  case (Cons ind rest)
  let ?P = "\<lambda>x. isDominated (fitness x) (fitness ind)"
  obtain d t rm where sc: "ParetoFront_scan isDominated similar ind 0 (items h) [] = (d, t, rm)"
    by (cases "ParetoFront_scan isDominated similar ind 0 (items h) []") auto
  from ParetoFront_scan_spec[of 0 "items h" isDominated similar ind d t rm] sc
  obtain m where m: "m \<le> length (items h)" "rm = [k \<leftarrow> [0..<m]. ?P (items h ! k)]"
    "\<not> d \<and> \<not> t \<longrightarrow> m = length (items h) \<and>
       (\<forall>k. k < length (items h) \<longrightarrow> \<not> isDominated (fitness ind) (fitness (items h ! k)))"
    by auto
  have len: "length (keys h) = length (items h)" using Cons.prems by (simp add: pf_inv_def)
  from remove_all_filter[OF len m(1), of ?P] m(2)
  obtain h1 where h1: "remove_all h (rev rm) = Inr h1"
    "items h1 = filter (\<lambda>x. \<not> ?P x) (take m (items h)) @ drop m (items h)"
    "length (keys h1) = length (items h1)" by auto
  have inv1: "pf_inv isDominated h1"
    using Cons.prems h1(2,3) sorted_wrt_filter_prefix
    by (auto simp: pf_inv_def mutually_nondominated_def)
  let ?h2 = "if \<not> d \<and> \<not> t then HallOfFame_insert h1 ind else h1"
  have inv2: "pf_inv isDominated ?h2"
  proof (cases "\<not> d \<and> \<not> t")
    case False
    then show ?thesis using inv1 by auto
  next
    case True
    with m(3) have full: "m = length (items h)"
      and nd: "\<forall>x\<in>set (items h). \<not> isDominated (fitness ind) (fitness x)"
      by (auto simp: in_set_conv_nth)
    have "\<forall>x\<in>set (items h1). \<not> ?P x \<and> \<not> isDominated (fitness ind) (fitness x)"
      using h1(2) full nd by auto
    then show ?thesis using True HallOfFame_insert_pf_inv[OF inv1] by simp
  qed
  from Cons.IH[OF inv2] sc h1(1) show ?case by simp
qed

lemma ParetoFront_updates_inv:
  assumes "pf_inv isDominated h"
  shows "\<exists>h1. ParetoFront_updates isDominated similar h pops = Inr h1 \<and> pf_inv isDominated h1"
  using assms
proof (induction pops arbitrary: h)
  case Nil
  then show ?case by simp
next
  case (Cons p ps)
  obtain h1 where h1: "ParetoFront_update isDominated similar h p = Inr h1" "pf_inv isDominated h1"
    using ParetoFront_update_inv[OF Cons.prems] by blast
  from Cons.IH[OF h1(2)] h1(1) show ?case by simp
qed

text \<open>
  Claim C4. After any finite sequence of \<^verbatim>\<open>ParetoFront.update\<close> calls starting from
  an empty \<^verbatim>\<open>ParetoFront\<close>, no call raises and no stored individual's fitness is
  dominated by the fitness of another stored individual. The proof uses no property of
  \<open>isDominated\<close>, so the statement holds in particular when it is a strict partial
  order, and for every similarity predicate.
\<close>

theorem ParetoFront_nondomination_invariant:
  "\<exists>h. ParetoFront_updates isDominated similar ParetoFront_init pops = Inr h \<and>
       (\<forall>i j. i < length (items h) \<and> j < length (items h) \<and> i \<noteq> j \<longrightarrow>
              \<not> isDominated (fitness (items h ! i)) (fitness (items h ! j)))"
proof -
  have "pf_inv isDominated (ParetoFront_init :: ('a, 'b) HallOfFame)"
    by (simp add: pf_inv_def ParetoFront_init_def mutually_nondominated_def)
  from ParetoFront_updates_inv[OF this, of similar pops]
  obtain h where h: "ParetoFront_updates isDominated similar ParetoFront_init pops = Inr h"
    "pf_inv isDominated h" by blast
  have "\<not> isDominated (fitness (items h ! i)) (fitness (items h ! j))"
    if "i < length (items h)" "j < length (items h)" "i \<noteq> j" for i j
  proof (cases "i < j")
    case True
    then show ?thesis using h(2) that
      by (auto simp: pf_inv_def mutually_nondominated_def sorted_wrt_iff_nth_less)
  next
    case False
    then have "j < i" using that by simp
    then show ?thesis using h(2) that
      by (auto simp: pf_inv_def mutually_nondominated_def sorted_wrt_iff_nth_less)
  qed
  then show ?thesis using h(1) by blast
qed

theorem ParetoFront_nondomination_invariant_witness:
  "ParetoFront_updates (\<lambda>a b. fst a \<le> fst b \<and> snd a \<le> snd b \<and> a \<noteq> b) (\<lambda>x y. x = y)
     ParetoFront_init
     [[\<lparr>genome = (), fitness = (1::int, 1::int)\<rparr>, \<lparr>genome = (), fitness = (1, 3)\<rparr>],
      [\<lparr>genome = (), fitness = (3, 1)\<rparr>, \<lparr>genome = (), fitness = (2, 2)\<rparr>]]
   = Inr \<lparr>maxsize = None, keys = [(1, 3), (2, 2), (3, 1)],
          items = [\<lparr>genome = (), fitness = (3, 1)\<rparr>, \<lparr>genome = (), fitness = (2, 2)\<rparr>,
                   \<lparr>genome = (), fitness = (1, 3)\<rparr>]\<rparr> \<and>
   (\<exists>h. ParetoFront_updates (\<lambda>a b. fst a \<le> fst b \<and> snd a \<le> snd b \<and> a \<noteq> b) (\<lambda>x y. x = y)
     ParetoFront_init
     [[\<lparr>genome = (), fitness = (1::int, 1::int)\<rparr>, \<lparr>genome = (), fitness = (1, 3)\<rparr>],
      [\<lparr>genome = (), fitness = (3, 1)\<rparr>, \<lparr>genome = (), fitness = (2, 2)\<rparr>]] = Inr h \<and>
      \<not> (fst (fitness (items h ! 0)) \<le> fst (fitness (items h ! 2)) \<and>
         snd (fitness (items h ! 0)) \<le> snd (fitness (items h ! 2)) \<and>
         fitness (items h ! 0) \<noteq> fitness (items h ! 2)))"
proof -
  let ?d = "\<lambda>a b :: int \<times> int. fst a \<le> fst b \<and> snd a \<le> snd b \<and> a \<noteq> b"
  let ?s = "\<lambda>x y :: (unit, int \<times> int) individual. x = y"
  let ?pops = "[[\<lparr>genome = (), fitness = (1::int, 1::int)\<rparr>, \<lparr>genome = (), fitness = (1, 3)\<rparr>],
      [\<lparr>genome = (), fitness = (3, 1)\<rparr>, \<lparr>genome = (), fitness = (2, 2)\<rparr>]]"
  have run: "ParetoFront_updates ?d ?s ParetoFront_init ?pops
   = Inr \<lparr>maxsize = None, keys = [(1, 3), (2, 2), (3, 1)],
          items = [\<lparr>genome = (), fitness = (3, 1)\<rparr>, \<lparr>genome = (), fitness = (2, 2)\<rparr>,
                   \<lparr>genome = (), fitness = (1, 3)\<rparr>]\<rparr>"
    by code_simp
  from ParetoFront_nondomination_invariant[of ?d ?s ?pops]
  obtain h where h: "ParetoFront_updates ?d ?s ParetoFront_init ?pops = Inr h"
    "\<forall>i j. i < length (items h) \<and> j < length (items h) \<and> i \<noteq> j \<longrightarrow>
              \<not> ?d (fitness (items h ! i)) (fitness (items h ! j))" by blast
  from h(1) run have "0 < length (items h) \<and> 2 < length (items h) \<and> (0::nat) \<noteq> 2" by simp
  with h(2) have "\<not> ?d (fitness (items h ! 0)) (fitness (items h ! 2))" by blast
  with h(1) run show ?thesis by blast
qed

section \<open>Crowding distance: proofs\<close>

lemma list_update_same_value: "ds ! k = v \<Longrightarrow> ds[j := v] ! k = v"
  by (cases "j < length ds"; cases "j = k") (simp_all add: list_update_beyond)

lemma crowding_add_length: "length (crowding_add fvalues i c j ds) = length ds"
  by (simp add: crowding_add_def split: dist.splits)

lemma crowding_add_sticky: "ds ! k = PlusInf \<Longrightarrow> crowding_add fvalues i c j ds ! k = PlusInf"
  by (cases "k = snd (c ! j)") (auto simp: crowding_add_def split: dist.splits)

lemma crowding_fold_length: "length (fold (crowding_add fvalues i c) js ds) = length ds"
  by (induction js arbitrary: ds) (simp_all add: crowding_add_length)

lemma crowding_fold_sticky:
  "ds ! k = PlusInf \<Longrightarrow> fold (crowding_add fvalues i c) js ds ! k = PlusInf"
  by (induction js arbitrary: ds) (simp_all add: crowding_add_sticky)

lemma crowding_step_sticky:
  assumes "crowding_step fvalues i (c, ds) = Inr (c', ds')" "ds ! k = PlusInf"
  shows "ds' ! k = PlusInf"
proof -
  from assms(1) obtain x xs where S: "sort_key (\<lambda>e. fvalues (fitness (fst e)) ! i) c = x # xs"
    and ds': "ds' = fold (crowding_add fvalues i (x # xs)) [1..<length (x # xs) - 1]
                 (ds[snd x := PlusInf, snd (last (x # xs)) := PlusInf])"
    by (auto simp: crowding_step_def Let_def split: if_splits list.splits)
  have "ds[snd x := PlusInf] ! k = PlusInf" using assms(2) by (rule list_update_same_value)
  then have "ds[snd x := PlusInf, snd (last (x # xs)) := PlusInf] ! k = PlusInf"
    by (rule list_update_same_value)
  then show ?thesis unfolding ds' by (rule crowding_fold_sticky)
qed

lemma crowding_step_spec:
  assumes "\<forall>e\<in>set c. i < length (fvalues (fitness (fst e)))" "c \<noteq> []"
  shows "\<exists>c' ds'. crowding_step fvalues i (c, ds) = Inr (c', ds') \<and> mset c' = mset c \<and>
           length ds' = length ds \<and>
           (\<forall>k. ds ! k = PlusInf \<longrightarrow> ds' ! k = PlusInf) \<and>
           ((\<forall>e\<in>set c. snd e < length ds) \<longrightarrow>
            (\<exists>a\<in>set c. \<exists>b\<in>set c. ds' ! snd a = PlusInf \<and> ds' ! snd b = PlusInf \<and>
               (\<forall>e\<in>set c. fvalues (fitness (fst a)) ! i \<le> fvalues (fitness (fst e)) ! i \<and>
                          fvalues (fitness (fst e)) ! i \<le> fvalues (fitness (fst b)) ! i)))"
proof -
  let ?key = "\<lambda>e. fvalues (fitness (fst e)) ! i"
  let ?S = "sort_key ?key c"
  have ne: "?S \<noteq> []" using assms(2) by (metis length_0_conv length_sort)
  then obtain x xs where S: "?S = x # xs" by (cases ?S) auto
  let ?d1 = "ds[snd x := PlusInf]"
  let ?d2 = "?d1[snd (last ?S) := PlusInf]"
  let ?d3 = "fold (crowding_add fvalues i ?S) [1..<length ?S - 1] ?d2"
  have noex: "\<not> list_ex (\<lambda>e. length (fvalues (fitness (fst e))) \<le> i) c"
    using assms(1) by (auto simp: list_ex_iff)
  have step: "crowding_step fvalues i (c, ds) = Inr (?S, ?d3)"
    using noex S by (simp add: crowding_step_def Let_def)
  have len: "length ?d3 = length ds" by (simp add: crowding_fold_length)
  have sticky: "ds ! k = PlusInf \<Longrightarrow> ?d3 ! k = PlusInf" for k
  proof -
    assume a: "ds ! k = PlusInf"
    have "?d1 ! k = PlusInf" using a by (rule list_update_same_value)
    then have "?d2 ! k = PlusInf" by (rule list_update_same_value)
    then show ?thesis by (rule crowding_fold_sticky)
  qed
  have sorted: "sorted (map ?key ?S)" by simp
  have xin: "x \<in> set c" "last ?S \<in> set c"
    using S ne by (metis list.set_intros(1) set_sort, metis last_in_set set_sort)
  have sw: "sorted_wrt (\<lambda>a b. ?key a \<le> ?key b) ?S"
    using sorted unfolding sorted_map .
  have x0: "x = ?S ! 0" using S by simp
  have xl: "last ?S = ?S ! (length ?S - 1)" using ne by (rule last_conv_nth)
  have bounds: "\<forall>e\<in>set c. ?key x \<le> ?key e \<and> ?key e \<le> ?key (last ?S)"
  proof
    fix e assume "e \<in> set c"
    then have e: "e \<in> set ?S" by simp
    then obtain k where k: "k < length ?S" "?S ! k = e" unfolding in_set_conv_nth by blast
    have "?key (?S ! 0) \<le> ?key (?S ! k)"
    proof (cases "k = 0")
      case True then show ?thesis by simp
    next
      case False
      then show ?thesis using sorted_wrt_nth_less[OF sw, of 0 k] k(1) by simp
    qed
    moreover have "?key (?S ! k) \<le> ?key (?S ! (length ?S - 1))"
    proof (cases "k = length ?S - 1")
      case True then show ?thesis by simp
    next
      case False
      then show ?thesis using sorted_wrt_nth_less[OF sw, of k "length ?S - 1"] k(1) by simp
    qed
    ultimately show "?key x \<le> ?key e \<and> ?key e \<le> ?key (last ?S)"
      unfolding x0 xl k(2) by blast
  qed
  have inf: "?d3 ! snd x = PlusInf \<and> ?d3 ! snd (last ?S) = PlusInf"
    if "\<forall>e\<in>set c. snd e < length ds"
  proof -
    have r: "snd x < length ds" "snd (last ?S) < length ds" using that xin by auto
    have "?d2 ! snd (last ?S) = PlusInf" using r by simp
    moreover have "?d1 ! snd x = PlusInf" using r by simp
    then have "?d2 ! snd x = PlusInf" by (rule list_update_same_value)
    ultimately show ?thesis by (simp add: crowding_fold_sticky)
  qed
  have mset: "mset ?S = mset c" by simp
  show ?thesis
    using step mset len sticky inf xin bounds by blast
qed


lemma crowding_state_ok_set:
  assumes "crowding_state_ok front (c, ds)" "e \<in> set c"
  shows "snd e < length front" "fst e = front ! snd e" "fst e \<in> set front" "snd e < length ds"
proof -
  have "set c = set (zip front [0..<length front])"
    using assms(1) by (metis crowding_state_ok_def fst_conv mset_eq_setD)
  then have "e \<in> set (zip front [0..<length front])" using assms(2) by simp
  then obtain k where k: "k < length front" "e = (front ! k, k)"
    by (auto simp: in_set_zip)
  show "snd e < length front" "fst e = front ! snd e" "fst e \<in> set front" using k by simp_all
  show "snd e < length ds" using k assms(1) by (simp add: crowding_state_ok_def)
qed

lemma crowding_state_ok_cover:
  assumes "crowding_state_ok front (c, ds)" "x \<in> set front"
  shows "\<exists>e\<in>set c. fst e = x"
proof -
  have s: "set c = set (zip front [0..<length front])"
    using assms(1) by (metis crowding_state_ok_def fst_conv mset_eq_setD)
  obtain k where k: "k < length front" "front ! k = x"
    using assms(2) by (auto simp: in_set_conv_nth)
  then have "(x, k) \<in> set (zip front [0..<length front])"
    by (auto simp: in_set_zip)
  then show ?thesis using s by force
qed

lemma crowding_loop_spec:
  assumes "front \<noteq> []" "\<forall>x\<in>set front. length (fvalues (fitness x)) = L"
    "crowding_state_ok front (c, ds)" "\<forall>d\<in>set dims. d < L"
  shows "\<exists>c' ds'. crowding_loop fvalues dims (c, ds) = Inr (c', ds') \<and>
           crowding_state_ok front (c', ds') \<and>
           (\<forall>k. ds ! k = PlusInf \<longrightarrow> ds' ! k = PlusInf) \<and>
           (\<forall>d\<in>set dims. \<exists>a<length front. \<exists>b<length front.
               ds' ! a = PlusInf \<and> ds' ! b = PlusInf \<and>
               (\<forall>x\<in>set front. fvalues (fitness (front ! a)) ! d \<le> fvalues (fitness x) ! d \<and>
                              fvalues (fitness x) ! d \<le> fvalues (fitness (front ! b)) ! d))"
  using assms(3,4)
proof (induction dims arbitrary: c ds)
  case Nil
  then show ?case by simp
next
  case (Cons i rest)
  have iL: "i < L" using Cons.prems(2) by simp
  have ar: "\<forall>e\<in>set c. i < length (fvalues (fitness (fst e)))"
    using crowding_state_ok_set(3)[OF Cons.prems(1)] assms(2) iL by auto
  have cne: "c \<noteq> []"
  proof -
    have "length c = length front" using Cons.prems(1)
      by (metis crowding_state_ok_def fst_conv length_zip length_upt min.idem mset_eq_length diff_zero)
    then show ?thesis using assms(1) by auto
  qed
  have idx: "\<forall>e\<in>set c. snd e < length ds"
    using crowding_state_ok_set(4)[OF Cons.prems(1)] by blast
  from crowding_step_spec[OF ar cne, of ds] idx
  obtain c1 ds1 a b where s1: "crowding_step fvalues i (c, ds) = Inr (c1, ds1)"
    "mset c1 = mset c" "length ds1 = length ds"
    "\<forall>k. ds ! k = PlusInf \<longrightarrow> ds1 ! k = PlusInf"
    "a \<in> set c" "b \<in> set c" "ds1 ! snd a = PlusInf" "ds1 ! snd b = PlusInf"
    "\<forall>e\<in>set c. fvalues (fitness (fst a)) ! i \<le> fvalues (fitness (fst e)) ! i \<and>
                 fvalues (fitness (fst e)) ! i \<le> fvalues (fitness (fst b)) ! i"
    by blast
  have ok1: "crowding_state_ok front (c1, ds1)"
    using Cons.prems(1) s1(2,3) by (simp add: crowding_state_ok_def)
  from Cons.IH[OF ok1] Cons.prems(2)
  obtain c' ds' where r: "crowding_loop fvalues rest (c1, ds1) = Inr (c', ds')"
    "crowding_state_ok front (c', ds')"
    "\<forall>k. ds1 ! k = PlusInf \<longrightarrow> ds' ! k = PlusInf"
    "\<forall>d\<in>set rest. \<exists>a<length front. \<exists>b<length front.
               ds' ! a = PlusInf \<and> ds' ! b = PlusInf \<and>
               (\<forall>x\<in>set front. fvalues (fitness (front ! a)) ! d \<le> fvalues (fitness x) ! d \<and>
                              fvalues (fitness x) ! d \<le> fvalues (fitness (front ! b)) ! d)"
    by auto
  have run: "crowding_loop fvalues (i # rest) (c, ds) = Inr (c', ds')"
    using s1(1) r(1) by simp
  have sticky: "\<forall>k. ds ! k = PlusInf \<longrightarrow> ds' ! k = PlusInf" using s1(4) r(3) by blast
  have here: "\<exists>a<length front. \<exists>b<length front.
               ds' ! a = PlusInf \<and> ds' ! b = PlusInf \<and>
               (\<forall>x\<in>set front. fvalues (fitness (front ! a)) ! i \<le> fvalues (fitness x) ! i \<and>
                              fvalues (fitness x) ! i \<le> fvalues (fitness (front ! b)) ! i)"
  proof -
    have 1: "snd a < length front" "snd b < length front"
      using crowding_state_ok_set(1)[OF Cons.prems(1)] s1(5,6) by auto
    have 2: "ds' ! snd a = PlusInf" "ds' ! snd b = PlusInf" using s1(7,8) r(3) by auto
    have fa: "front ! snd a = fst a" "front ! snd b = fst b"
      using crowding_state_ok_set(2)[OF Cons.prems(1)] s1(5,6) by auto
    have 3: "fvalues (fitness (front ! snd a)) ! i \<le> fvalues (fitness x) ! i \<and>
      fvalues (fitness x) ! i \<le> fvalues (fitness (front ! snd b)) ! i" if xf: "x \<in> set front" for x
    proof -
      obtain e where e: "e \<in> set c" "fst e = x"
        using crowding_state_ok_cover[OF Cons.prems(1) xf] by blast
      show ?thesis using s1(9) e fa by auto
    qed
    show ?thesis using 1 2 3 by blast
  qed
  show ?case using run r(2) sticky here r(4) by auto
qed

lemma crowding_loop_sticky:
  assumes "crowding_loop fvalues dims (c, ds) = Inr (c', ds')" "ds ! k = PlusInf"
  shows "ds' ! k = PlusInf"
  using assms
proof (induction dims arbitrary: c ds)
  case Nil
  then show ?case by auto
next
  case (Cons i rest)
  then obtain c1 ds1 where s1: "crowding_step fvalues i (c, ds) = Inr (c1, ds1)"
    "crowding_loop fvalues rest (c1, ds1) = Inr (c', ds')"
    by (auto split: sum.splits)
  have "ds1 ! k = PlusInf"
    using s1(1) Cons.prems(2) by (rule crowding_step_sticky)
  with Cons.IH s1(2) show ?case by blast
qed

text \<open>
  Claim C9. For every target count \<open>n\<close>, \<^verbatim>\<open>sortCrowdingDist\<close> on an empty front
  returns an empty result and does not raise.
\<close>

theorem sortCrowdingDist_empty_front: "sortCrowdingDist fvalues [] n = Inr []"
  by (simp add: sortCrowdingDist_def)

text \<open>
  Claim C8. For every non-empty front whose fitnesses all have \<open>L\<close> objectives, the loop
  over the objectives ends without raising, and for every objective \<open>d < L\<close> the final
  \<^verbatim>\<open>distances\<close> are infinite at an individual \<open>a\<close> holding the minimum value and at an
  individual \<open>b\<close> holding the maximum value of the front on \<open>d\<close>. Moreover a distance
  that is infinite before any run of the loop over further objectives \<open>dims\<close> is
  infinite after it. That the individuals are mutually non-dominating is not needed.
\<close>

theorem sortCrowdingDist_boundary:
  assumes "front \<noteq> []" "\<forall>x\<in>set front. length (fvalues (fitness x)) = L"
  shows "(\<exists>distances. crowding_distances fvalues front = Inr distances \<and>
           length distances = length front \<and>
           (\<forall>d<L. \<exists>a<length front. \<exists>b<length front.
               distances ! a = PlusInf \<and> distances ! b = PlusInf \<and>
               (\<forall>x\<in>set front. fvalues (fitness (front ! a)) ! d \<le> fvalues (fitness x) ! d \<and>
                              fvalues (fitness x) ! d \<le> fvalues (fitness (front ! b)) ! d))) \<and>
         (\<forall>dims c ds c' ds' k.
           crowding_loop fvalues dims (c, ds) = Inr (c', ds') \<and> ds ! k = PlusInf \<longrightarrow>
           ds' ! k = PlusInf)"
proof -
  obtain ind0 tl where f: "front = ind0 # tl" using assms(1) by (cases front) auto
  have L: "length (fvalues (fitness ind0)) = L" using assms(2) f by simp
  have ok: "crowding_state_ok front (zip front [0..<length front], replicate (length front) (Fin 0))"
    by (simp add: crowding_state_ok_def)
  have "\<forall>d\<in>set [0..<L]. d < L" by simp
  from crowding_loop_spec[OF assms ok this]
  obtain c' ds' where r: "crowding_loop fvalues [0..<L]
      (zip front [0..<length front], replicate (length front) (Fin 0)) = Inr (c', ds')"
    "crowding_state_ok front (c', ds')"
    "\<forall>d\<in>set [0..<L]. \<exists>a<length front. \<exists>b<length front.
               ds' ! a = PlusInf \<and> ds' ! b = PlusInf \<and>
               (\<forall>x\<in>set front. fvalues (fitness (front ! a)) ! d \<le> fvalues (fitness x) ! d \<and>
                              fvalues (fitness x) ! d \<le> fvalues (fitness (front ! b)) ! d)"
    by blast
  have "crowding_distances fvalues front = Inr ds'"
    using r(1) L unfolding crowding_distances_def f[symmetric] by (simp add: f)
  moreover have "length ds' = length front" using r(2) by (simp add: crowding_state_ok_def)
  ultimately have "\<exists>distances. crowding_distances fvalues front = Inr distances \<and>
           length distances = length front \<and>
           (\<forall>d<L. \<exists>a<length front. \<exists>b<length front.
               distances ! a = PlusInf \<and> distances ! b = PlusInf \<and>
               (\<forall>x\<in>set front. fvalues (fitness (front ! a)) ! d \<le> fvalues (fitness x) ! d \<and>
                              fvalues (fitness x) ! d \<le> fvalues (fitness (front ! b)) ! d))"
    using r(3) by auto
  then show ?thesis using crowding_loop_sticky by blast
qed

theorem sortCrowdingDist_boundary_witness:
  "[\<lparr>genome = (), fitness = [1::real, 4]\<rparr>, \<lparr>genome = (), fitness = [2, 3]\<rparr>,
    \<lparr>genome = (), fitness = [3, 2]\<rparr>, \<lparr>genome = (), fitness = [4, 1]\<rparr>] \<noteq> [] \<and>
   map (\<lambda>x. length (fitness x))
     [\<lparr>genome = (), fitness = [1::real, 4]\<rparr>, \<lparr>genome = (), fitness = [2, 3]\<rparr>,
      \<lparr>genome = (), fitness = [3, 2]\<rparr>, \<lparr>genome = (), fitness = [4, 1]\<rparr>] = [2, 2, 2, 2] \<and>
   crowding_distances (\<lambda>f. f)
     [\<lparr>genome = (), fitness = [1::real, 4]\<rparr>, \<lparr>genome = (), fitness = [2, 3]\<rparr>,
      \<lparr>genome = (), fitness = [3, 2]\<rparr>, \<lparr>genome = (), fitness = [4, 1]\<rparr>]
     = Inr [PlusInf, Fin 4, Fin 4, PlusInf] \<and>
   (\<exists>distances. crowding_distances (\<lambda>f. f)
     [\<lparr>genome = (), fitness = [1::real, 4]\<rparr>, \<lparr>genome = (), fitness = [2, 3]\<rparr>,
      \<lparr>genome = (), fitness = [3, 2]\<rparr>, \<lparr>genome = (), fitness = [4, 1]\<rparr>] = Inr distances \<and>
     length distances = 4 \<and>
     (\<exists>a b. distances ! a = PlusInf \<and> distances ! b = PlusInf))"
proof -
  let ?front = "[\<lparr>genome = (), fitness = [1::real, 4]\<rparr>, \<lparr>genome = (), fitness = [2, 3]\<rparr>,
      \<lparr>genome = (), fitness = [3, 2]\<rparr>, \<lparr>genome = (), fitness = [4, 1]\<rparr>]"
  have ne: "?front \<noteq> []" by simp
  have ar: "\<forall>x\<in>set ?front. length ((\<lambda>f. f) (fitness x)) = 2" by simp
  have run: "crowding_distances (\<lambda>f. f) ?front = Inr [PlusInf, Fin 4, Fin 4, PlusInf]"
    by code_simp
  from sortCrowdingDist_boundary[OF ne ar]
  obtain distances where d: "crowding_distances (\<lambda>f. f) ?front = Inr distances"
    "length distances = length ?front"
    "\<forall>d<2. \<exists>a<length ?front. \<exists>b<length ?front. distances ! a = PlusInf \<and> distances ! b = PlusInf \<and>
       (\<forall>x\<in>set ?front. fitness (?front ! a) ! d \<le> fitness x ! d \<and>
                        fitness x ! d \<le> fitness (?front ! b) ! d)"
    by blast
  from d(3) have "\<exists>a b. distances ! a = PlusInf \<and> distances ! b = PlusInf"
    by (meson zero_less_numeral)
  with d(1,2) run ne show ?thesis by simp
qed

theorem sortCrowdingDist_empty_front_witness:
  "sortCrowdingDist (\<lambda>f :: real list. f) ([] :: (unit, real list) individual list) 3 = Inr []"
  by (rule sortCrowdingDist_empty_front)

section \<open>Order statistic selection: proofs\<close>

lemma randint_range:
  "randint rng t a b = Inr (p, t') \<Longrightarrow> a \<le> p \<and> p \<le> b \<and> t' = Suc t"
proof -
  assume a: "randint rng t a b = Inr (p, t')"
  then have le: "a \<le> b" and p: "p = a + int (rng t mod nat (b - a + 1))" and "t' = Suc t"
    by (auto simp: randint_def split: if_splits)
  have "rng t mod nat (b - a + 1) < nat (b - a + 1)" using le by (intro mod_less_divisor) simp
  then have "int (rng t mod nat (b - a + 1)) < b - a + 1" using le by linarith
  then show ?thesis using p \<open>t' = Suc t\<close> by simp
qed

lemma select_outcomes_mem:
  assumes "begin \<noteq> end" "\<not> end < begin" "begin \<le> p" "p \<le> end"
    and "r \<in> set (case pivot_partition array begin end p of
               Inl e \<Rightarrow> [Some (Inl e)]
             | Inr (array', q) \<Rightarrow>
                 if i < real_of_int (q - begin + 1)
                 then select_outcomes fuel array' begin q i
                 else select_outcomes fuel array' (q + 1) end (i - real_of_int (q - begin + 1)))"
  shows "r \<in> set (select_outcomes (Suc fuel) array begin end i)"
proof -
  have "p \<in> set [begin..end]" using assms(3,4) by simp
  then show ?thesis using assms(1,2,5) unfolding select_outcomes.simps set_concat set_map by auto
qed

lemma rs_base: "randomizedSelect rng t array begin begin i =
   Some (case py_getitem array begin of Inl e \<Rightarrow> Inl e | Inr v \<Rightarrow> Inr (v, t))"
  by (subst randomizedSelect.simps) simp

lemma rs_step:
  assumes "begin \<noteq> end"
  shows "randomizedSelect rng t array begin end i =
    (case randomizedPartition rng t array begin end of
              Inl e \<Rightarrow> Some (Inl e)
            | Inr ((array', q), t') \<Rightarrow>
                if i < real_of_int (q - begin + 1)
                then randomizedSelect rng t' array' begin q i
                else randomizedSelect rng t' array' (q + 1) end (i - real_of_int (q - begin + 1)))"
  using assms by (subst randomizedSelect.simps) simp


lemma select_outcomes_sound:
  "\<exists>r\<in>set (select_outcomes fuel array begin end i).
      r = None \<or> map_option (map_sum id fst) (randomizedSelect rng t array begin end i) = r"
proof (induction fuel arbitrary: t array "begin" "end" i)
  case 0
  show ?case by simp
next
  case (Suc fuel)
  show ?case
  proof (cases "begin = end")
    case True
    show ?thesis unfolding True
      by (cases "py_getitem array end") (simp_all add: rs_base)
  next
    case ne: False
    show ?thesis
    proof (cases "end < begin")
      case True
      have "randomizedSelect rng t array begin end i = Some (Inl ValueError)"
        unfolding rs_step[OF ne] using True by (simp add: randomizedPartition_def randint_def)
      then show ?thesis using ne True by simp
    next
      case False
      define p where "p = begin + int (rng t mod nat (end - begin + 1))"
      have p: "randint rng t begin end = Inr (p, Suc t)"
        using False by (simp add: randint_def p_def)
      have pr: "begin \<le> p" "p \<le> end" using randint_range[OF p] by simp_all
      let ?branch = "case pivot_partition array begin end p of
               Inl e \<Rightarrow> [Some (Inl e)]
             | Inr (array', q) \<Rightarrow>
                 if i < real_of_int (q - begin + 1)
                 then select_outcomes fuel array' begin q i
                 else select_outcomes fuel array' (q + 1) end (i - real_of_int (q - begin + 1))"
      have "\<exists>r\<in>set ?branch.
        r = None \<or> map_option (map_sum id fst) (randomizedSelect rng t array begin end i) = r"
      proof (cases "pivot_partition array begin end p")
        case (Inl e)
        then have "randomizedSelect rng t array begin end i = Some (Inl e)"
          unfolding rs_step[OF ne] using p by (simp add: randomizedPartition_def)
        then show ?thesis using Inl by simp
      next
        case (Inr r)
        obtain array' q where r: "r = (array', q)" by (cases r)
        let ?k = "real_of_int (q - begin + 1)"
        show ?thesis
        proof (cases "i < ?k")
          case True
          have eq: "randomizedSelect rng t array begin end i = randomizedSelect rng (Suc t) array' begin q i"
            unfolding rs_step[OF ne] using p Inr r True by (simp add: randomizedPartition_def)
          have br: "?branch = select_outcomes fuel array' begin q i"
            using Inr r True by simp
          show ?thesis unfolding br eq by (rule Suc.IH)
        next
          case ge: False
          have eq: "randomizedSelect rng t array begin end i =
                    randomizedSelect rng (Suc t) array' (q + 1) end (i - ?k)"
            unfolding rs_step[OF ne] using p Inr r ge by (simp add: randomizedPartition_def)
          have br: "?branch = select_outcomes fuel array' (q + 1) end (i - ?k)"
            using Inr r ge by simp
          show ?thesis unfolding br eq by (rule Suc.IH)
        qed
      qed
      then obtain r where r: "r \<in> set ?branch"
        "r = None \<or> map_option (map_sum id fst) (randomizedSelect rng t array begin end i) = r"
        by blast
      from select_outcomes_mem[OF ne False pr r(1)] r(2) show ?thesis by blast
    qed
  qed
qed

lemma select_outcomes_all:
  assumes "list_all (\<lambda>r. r = Some (Inr v)) (select_outcomes fuel array begin end i)"
  shows "\<exists>t'. randomizedSelect rng t array begin end i = Some (Inr (v, t'))"
proof -
  from select_outcomes_sound[of fuel array "begin" "end" i rng t] assms
  have m: "map_option (map_sum id fst) (randomizedSelect rng t array begin end i) = Some (Inr v)"
    by (auto simp: list_all_iff)
  then obtain x where x: "randomizedSelect rng t array begin end i = Some x" "map_sum id fst x = Inr v"
    by (cases "randomizedSelect rng t array begin end i") auto
  then obtain y where "x = Inr y" "fst y = v" by (cases x) auto
  then show ?thesis using x(1) by (cases y) auto
qed

lemma select_outcomes_rank3:
  "list_all (\<lambda>r. r = Some (Inr 7)) (select_outcomes 5 [9, 1, 5, 3, 7 :: real] 0 4 3)"
  by code_simp

lemma select_outcomes_rank2:
  "list_all (\<lambda>r. r = Some (Inr 5)) (select_outcomes 5 [9, 1, 5, 3, 7 :: real] 0 4 2)"
  by code_simp

text \<open>
  Claim C6 says that \<^verbatim>\<open>_randomizedSelect\<close> on \<open>[9,1,5,3,7]\<close> with \<open>i = 3\<close> returns \<open>5\<close>
  for every sequence of pivot choices. The code compares \<open>i < k\<close> where \<open>k\<close> is the size
  of the left part, so \<open>i\<close> is a rank counted from zero: with the random source that
  always draws the first index the call returns \<open>7\<close>.
\<close>

theorem randomizedSelect_rank3_counterexample:
  "randomizedSelect always_first 0 [9, 1, 5, 3, 7 :: real] 0 4 3 = Some (Inr (7, 2))"
  by code_simp

text \<open>
  Claim C6, amended: for the array \<open>[9,1,5,3,7]\<close> and every sequence of pivot choices,
  \<^verbatim>\<open>_randomizedSelect\<close> returns \<open>7\<close> for \<open>i = 3\<close> and \<open>5\<close> for \<open>i = 2\<close>: \<open>i\<close> is the rank
  counted from zero in the sorted array \<open>[1,3,5,7,9]\<close>.
\<close>

theorem randomizedSelect_rank_from_zero:
  "(\<exists>t'. randomizedSelect rng t [9, 1, 5, 3, 7 :: real] 0 4 3 = Some (Inr (7, t'))) \<and>
   (\<exists>t'. randomizedSelect rng t [9, 1, 5, 3, 7 :: real] 0 4 2 = Some (Inr (5, t')))"
  using select_outcomes_all[OF select_outcomes_rank3, of rng t]
    select_outcomes_all[OF select_outcomes_rank2, of rng t]
  by blast

end
